theory Spec2Isabelle
  imports Complex_Main "HOL-Library.Word"
begin

unbundle bit_operations_syntax

section \<open>The numbers of the source\<close>

text \<open>
  The source is TypeScript (\<^verbatim>\<open>src/App.tsx\<close>). Its \<^verbatim>\<open>dimension\<close> is an integer-valued
  number, modelled as \<^typ>\<open>int\<close>. The bitwise operators of JavaScript convert both
  operands to 32-bit two's complement integers, take the shift count modulo 32 and
  return a signed 32-bit result; they are modelled on \<^typ>\<open>32 word\<close> and read back with
  \<^const>\<open>sint\<close>.
\<close>

definition js_shl :: "int \<Rightarrow> int \<Rightarrow> int" where
  "js_shl a n = sint (push_bit (nat (n mod 32)) (word_of_int a :: 32 word))"

definition js_sar :: "int \<Rightarrow> int \<Rightarrow> int" where
  "js_sar a n = sint (signed_drop_bit (nat (n mod 32)) (word_of_int a :: 32 word))"

definition js_and :: "int \<Rightarrow> int \<Rightarrow> int" where
  "js_and a b = sint ((word_of_int a :: 32 word) AND word_of_int b)"

definition js_xor :: "int \<Rightarrow> int \<Rightarrow> int" where
  "js_xor a b = sint ((word_of_int a :: 32 word) XOR word_of_int b)"

section \<open>Arrays\<close>

text \<open>
  A JavaScript array holds at most \<open>2 ^ 32 - 1\<close> elements: \<^verbatim>\<open>push\<close> on an array of that
  length throws \<^verbatim>\<open>RangeError\<close> (invalid array length). It is the only exception the
  generator can raise, so its result type is \<open>error + 'a\<close>. The memory an engine really
  has is outside the model.
\<close>

datatype error = RangeError

definition maxArrayLength :: int where
  "maxArrayLength = 4294967295"

definition push :: "'a list \<Rightarrow> 'a \<Rightarrow> error + 'a list" where
  "push xs x = (if int (length xs) < maxArrayLength then Inr (xs @ [x]) else Inl RangeError)"

section \<open>The hypercube generator\<close>

type_synonym PointND = "real list"
type_synonym Edge = "int \<times> int"

record Hypercube =
  vertices :: "PointND list"
  edges :: "Edge list"

text \<open>
  Coordinate \<open>j\<close> of vertex \<open>i\<close>: \<^verbatim>\<open>(i >> j) & 1 ? 0.5 : -0.5\<close>; a number is truthy
  when it is not zero.
\<close>

definition coordAt :: "int \<Rightarrow> int \<Rightarrow> real" where
  "coordAt i j = (if js_and (js_sar i j) 1 \<noteq> 0 then 0.5 else - 0.5)"

text \<open>
  The inner loop of the vertex generation:
  \<^verbatim>\<open>for (let j = 0; j < dimension; j++) point.push((i >> j) & 1 ? 0.5 : -0.5)\<close>.
\<close>

function coordLoop :: "int \<Rightarrow> int \<Rightarrow> int \<Rightarrow> PointND \<Rightarrow> error + PointND" where
  "coordLoop i dimension j point =
     (if j < dimension
      then (case push point (coordAt i j) of
              Inl e \<Rightarrow> Inl e
            | Inr point' \<Rightarrow> coordLoop i dimension (j + 1) point')
      else Inr point)"
  by pat_completeness auto
termination
  by (relation "measure (\<lambda>(i, dimension, j, point). nat (dimension - j))") auto

declare coordLoop.simps [simp del]

text \<open>
  The outer loop:
  \<^verbatim>\<open>for (let i = 0; i < numVertices; i++) { const point = []; ...; vertices.push(point) }\<close>.
\<close>

function vertexLoop ::
  "int \<Rightarrow> int \<Rightarrow> int \<Rightarrow> PointND list \<Rightarrow> error + PointND list" where
  "vertexLoop numVertices dimension i vacc =
     (if i < numVertices
      then (case coordLoop i dimension 0 [] of
              Inl e \<Rightarrow> Inl e
            | Inr point \<Rightarrow>
                (case push vacc point of
                   Inl e \<Rightarrow> Inl e
                 | Inr vacc' \<Rightarrow> vertexLoop numVertices dimension (i + 1) vacc'))
      else Inr vacc)"
  by pat_completeness auto
termination
  by (relation "measure (\<lambda>(numVertices, dimension, i, vacc). nat (numVertices - i))") auto

declare vertexLoop.simps [simp del]

text \<open>
  The body of the edge generation, for one vertex \<open>i\<close> and one bit position \<open>j\<close>:
  \<^verbatim>\<open>const neighbor = i ^ (1 << j); if (i < neighbor) edges.push([i, neighbor])\<close>.
\<close>

definition edgeStep :: "int \<Rightarrow> int \<Rightarrow> Edge list \<Rightarrow> error + Edge list" where
  "edgeStep i j eacc =
     (let neighbor = js_xor i (js_shl 1 j)
      in if i < neighbor then push eacc (i, neighbor) else Inr eacc)"

function neighborLoop :: "int \<Rightarrow> int \<Rightarrow> int \<Rightarrow> Edge list \<Rightarrow> error + Edge list" where
  "neighborLoop i dimension j eacc =
     (if j < dimension
      then (case edgeStep i j eacc of
              Inl e \<Rightarrow> Inl e
            | Inr eacc' \<Rightarrow> neighborLoop i dimension (j + 1) eacc')
      else Inr eacc)"
  by pat_completeness auto
termination
  by (relation "measure (\<lambda>(i, dimension, j, eacc). nat (dimension - j))") auto

declare neighborLoop.simps [simp del]

function edgeLoop :: "int \<Rightarrow> int \<Rightarrow> int \<Rightarrow> Edge list \<Rightarrow> error + Edge list" where
  "edgeLoop numVertices dimension i eacc =
     (if i < numVertices
      then (case neighborLoop i dimension 0 eacc of
              Inl e \<Rightarrow> Inl e
            | Inr eacc' \<Rightarrow> edgeLoop numVertices dimension (i + 1) eacc')
      else Inr eacc)"
  by pat_completeness auto
termination
  by (relation "measure (\<lambda>(numVertices, dimension, i, eacc). nat (numVertices - i))") auto

declare edgeLoop.simps [simp del]

text \<open>
  \<^verbatim>\<open>generateHypercube\<close>: dimension 0 returns the single vertex \<^verbatim>\<open>[0]\<close>, a negative
  dimension returns nothing, and from dimension 1 on \<^verbatim>\<open>numVertices = 1 << dimension\<close>
  drives first the vertex loops, then the edge loops. An exception of either ends the
  call.
\<close>

definition generateHypercube :: "int \<Rightarrow> error + Hypercube" where
  "generateHypercube dimension =
     (if dimension < 1
      then (if dimension = 0
            then Inr \<lparr>vertices = [[0]], edges = []\<rparr>
            else Inr \<lparr>vertices = [], edges = []\<rparr>)
      else (let numVertices = js_shl 1 dimension
            in case vertexLoop numVertices dimension 0 [] of
                 Inl e \<Rightarrow> Inl e
               | Inr vs \<Rightarrow>
                   (case edgeLoop numVertices dimension 0 [] of
                      Inl e \<Rightarrow> Inl e
                    | Inr es \<Rightarrow> Inr \<lparr>vertices = vs, edges = es\<rparr>)))"

section \<open>The projector\<close>

text \<open>
  The numbers of the projection are IEEE doubles in the source. The model takes the finite
  ones as \<^typ>\<open>real\<close> with exact arithmetic (\<^verbatim>\<open>Math.cos\<close>, \<^verbatim>\<open>Math.sin\<close> and \<^verbatim>\<open>Math.PI\<close>
  are \<^const>\<open>cos\<close>, \<^const>\<open>sin\<close> and \<^const>\<open>pi\<close>): rounding, overflow and the sign of zero are
  outside the model. \<open>NaN\<close> is kept as a value of its own, because reading \<^verbatim>\<open>point[k]\<close>
  beyond the end of a vertex yields \<^verbatim>\<open>undefined\<close>, and \<^verbatim>\<open>undefined * c\<close> is \<open>NaN\<close>, which
  every later addition and multiplication keeps.
\<close>

datatype jsnum = Num real | NaN

fun jmul :: "jsnum \<Rightarrow> jsnum \<Rightarrow> jsnum" where
  "jmul (Num a) (Num b) = Num (a * b)"
| "jmul _ _ = NaN"

fun jadd :: "jsnum \<Rightarrow> jsnum \<Rightarrow> jsnum" where
  "jadd (Num a) (Num b) = Num (a + b)"
| "jadd _ _ = NaN"

type_synonym Point2D = "jsnum \<times> jsnum"

text \<open>\<^verbatim>\<open>point[k]\<close>, as a factor of a product.\<close>

definition coordOf :: "PointND \<Rightarrow> int \<Rightarrow> jsnum" where
  "coordOf point k = (if 0 \<le> k \<and> k < int (length point) then Num (point ! nat k) else NaN)"

text \<open>
  The body of the projection loop:
  \<^verbatim>\<open>const angle = (Math.PI * k) / (dimension - 1.5);\<close>
  \<^verbatim>\<open>x += point[k] * Math.cos(angle); y += point[k] * Math.sin(angle);\<close>
\<close>

definition projectStep :: "PointND \<Rightarrow> int \<Rightarrow> int \<Rightarrow> jsnum \<times> jsnum \<Rightarrow> jsnum \<times> jsnum" where
  "projectStep point dimension k acc =
     (let angle = (pi * real_of_int k) / (real_of_int dimension - 1.5)
      in (jadd (fst acc) (jmul (coordOf point k) (Num (cos angle))),
          jadd (snd acc) (jmul (coordOf point k) (Num (sin angle)))))"

function projectLoop :: "PointND \<Rightarrow> int \<Rightarrow> int \<Rightarrow> jsnum \<times> jsnum \<Rightarrow> jsnum \<times> jsnum" where
  "projectLoop point dimension k acc =
     (if k < dimension
      then projectLoop point dimension (k + 1) (projectStep point dimension k acc)
      else acc)"
  by pat_completeness auto
termination
  by (relation "measure (\<lambda>(point, dimension, k, acc). nat (dimension - k))") auto

declare projectLoop.simps [simp del]

text \<open>
  The function mapped over the vertices from dimension 3 on: the loop from
  \<open>x = 0\<close>, \<open>y = 0\<close>, then the scaling by \<^verbatim>\<open>size * 2.2 / (dimension - 1)\<close>.
\<close>

definition projectPoint :: "int \<Rightarrow> real \<Rightarrow> PointND \<Rightarrow> Point2D" where
  "projectPoint dimension sz point =
     (let acc = projectLoop point dimension 0 (Num 0, Num 0);
          scaleFactor = sz * 2.2 / (real_of_int dimension - 1)
      in (jmul (fst acc) (Num scaleFactor), jmul (snd acc) (Num scaleFactor)))"

text \<open>
  \<^verbatim>\<open>projectedVertices\<close>, as a function of the vertex list, the dimension and the size
  (in the component the vertex list is always \<open>generateHypercube dimension\<close>).
\<close>

definition projectedVertices :: "PointND list \<Rightarrow> int \<Rightarrow> real \<Rightarrow> Point2D list" where
  "projectedVertices nDVertices dimension sz =
     (if dimension = 0 then [(Num 0, Num 0)]
      else if dimension = 1 then [(Num (- sz / 2), Num 0), (Num (sz / 2), Num 0)]
      else if dimension = 2 then
        [(Num (- sz / 2), Num (- sz / 2)),
         (Num (sz / 2), Num (- sz / 2)),
         (Num (- sz / 2), Num (sz / 2)),
         (Num (sz / 2), Num (sz / 2))]
      else map (projectPoint dimension sz) nDVertices)"

section \<open>Indices that differ in one bit\<close>

text \<open>
  The specification's edge relation: the binary representations of the two indices differ
  in exactly one bit position.
\<close>

definition differ_in_one_bit :: "int \<Rightarrow> int \<Rightarrow> bool" where
  "differ_in_one_bit a b \<longleftrightarrow> (\<exists>k. \<forall>m. (bit a m \<noteq> bit b m) \<longleftrightarrow> m = k)"

section \<open>The lists the loops build\<close>

text \<open>
  What the loops append when no \<^verbatim>\<open>push\<close> throws, written as list comprehensions; the
  lemmas below relate the loops to them.
\<close>

definition edgeAt :: "int \<Rightarrow> int \<Rightarrow> Edge list" where
  "edgeAt i j =
     (let neighbor = js_xor i (js_shl 1 j)
      in if i < neighbor then [(i, neighbor)] else [])"

definition vertexList :: "int \<Rightarrow> int \<Rightarrow> PointND list" where
  "vertexList numVertices dimension =
     map (\<lambda>i. map (coordAt i) [0..dimension - 1]) [0..numVertices - 1]"

definition edgeList :: "int \<Rightarrow> int \<Rightarrow> Edge list" where
  "edgeList numVertices dimension =
     concat (map (\<lambda>i. concat (map (edgeAt i) [0..dimension - 1])) [0..numVertices - 1])"

section \<open>The loops as lists\<close>

lemma coordLoop_eq:
  "int (length p) \<le> maxArrayLength \<Longrightarrow>
   coordLoop i d j p =
     (if int (length (p @ map (coordAt i) [j..d - 1])) \<le> maxArrayLength
      then Inr (p @ map (coordAt i) [j..d - 1]) else Inl RangeError)"
proof (induction i d j p rule: coordLoop.induct)
  case (1 i d j p)
  show ?case
  proof (cases "j < d")
    case False
    then show ?thesis using 1(2) by (simp add: coordLoop.simps [of i d j p])
  next
    case True
    then have u: "[j..d - 1] = j # [j + 1..d - 1]" by (simp add: upto_rec1)
    show ?thesis
    proof (cases "int (length p) < maxArrayLength")
      case False
      then show ?thesis using True u
        by (simp add: coordLoop.simps [of i d j p] push_def)
    next
      case lt: True
      then have p: "push p (coordAt i j) = Inr (p @ [coordAt i j])" by (simp add: push_def)
      have "int (length (p @ [coordAt i j])) \<le> maxArrayLength" using lt by simp
      from 1(1) [OF True p this] show ?thesis using True u p
        by (simp add: coordLoop.simps [of i d j p])
    qed
  qed
qed

lemma coordLoop_start:
  "coordLoop i d 0 [] =
     (if d \<le> maxArrayLength then Inr (map (coordAt i) [0..d - 1]) else Inl RangeError)"
proof -
  have e: "int (length ([] :: PointND)) \<le> maxArrayLength" by (simp add: maxArrayLength_def)
  have "int (length ([] @ map (coordAt i) [0..d - 1])) \<le> maxArrayLength \<longleftrightarrow> d \<le> maxArrayLength"
    by (simp add: maxArrayLength_def)
  with coordLoop_eq [OF e, of i d 0] show ?thesis by (simp only: append_Nil)
qed

lemma vertexLoop_eq:
  "int (length acc) \<le> maxArrayLength \<Longrightarrow>
   vertexLoop n d i acc =
     (if i < n \<and> maxArrayLength < d then Inl RangeError
      else if int (length (acc @ map (\<lambda>i. map (coordAt i) [0..d - 1]) [i..n - 1])) \<le> maxArrayLength
      then Inr (acc @ map (\<lambda>i. map (coordAt i) [0..d - 1]) [i..n - 1]) else Inl RangeError)"
proof (induction n d i acc rule: vertexLoop.induct)
  case (1 n d i acc)
  show ?case
  proof (cases "i < n")
    case False
    then show ?thesis using 1(2) by (simp add: vertexLoop.simps [of n d i acc])
  next
    case True
    then have u: "[i..n - 1] = i # [i + 1..n - 1]" by (simp add: upto_rec1)
    show ?thesis
    proof (cases "d \<le> maxArrayLength")
      case False
      then show ?thesis using True
        by (simp add: vertexLoop.simps [of n d i acc] coordLoop_start)
    next
      case dle: True
      then have c: "coordLoop i d 0 [] = Inr (map (coordAt i) [0..d - 1])"
        by (simp add: coordLoop_start)
      show ?thesis
      proof (cases "int (length acc) < maxArrayLength")
        case False
        then show ?thesis using True u dle c
          by (simp add: vertexLoop.simps [of n d i acc] push_def)
      next
        case lt: True
        then have p: "push acc (map (coordAt i) [0..d - 1]) = Inr (acc @ [map (coordAt i) [0..d - 1]])"
          by (simp add: push_def)
        have "int (length (acc @ [map (coordAt i) [0..d - 1]])) \<le> maxArrayLength" using lt by simp
        from 1(1) [OF True c p this] show ?thesis using True u p c dle
          by (simp add: vertexLoop.simps [of n d i acc])
      qed
    qed
  qed
qed

lemma edgeStep_eq:
  "int (length acc) \<le> maxArrayLength \<Longrightarrow>
   edgeStep i j acc =
     (if int (length (acc @ edgeAt i j)) \<le> maxArrayLength
      then Inr (acc @ edgeAt i j) else Inl RangeError)"
  by (auto simp: edgeStep_def edgeAt_def Let_def push_def)

lemma neighborLoop_eq:
  "int (length acc) \<le> maxArrayLength \<Longrightarrow>
   neighborLoop i d j acc =
     (if int (length (acc @ concat (map (edgeAt i) [j..d - 1]))) \<le> maxArrayLength
      then Inr (acc @ concat (map (edgeAt i) [j..d - 1])) else Inl RangeError)"
proof (induction i d j acc rule: neighborLoop.induct)
  case (1 i d j acc)
  show ?case
  proof (cases "j < d")
    case False
    then show ?thesis using 1(2) by (simp add: neighborLoop.simps [of i d j acc])
  next
    case True
    then have u: "[j..d - 1] = j # [j + 1..d - 1]" by (simp add: upto_rec1)
    show ?thesis
    proof (cases "int (length (acc @ edgeAt i j)) \<le> maxArrayLength")
      case False
      then have "edgeStep i j acc = Inl RangeError" using 1(2) by (simp add: edgeStep_eq)
      then show ?thesis using True u False
        by (simp add: neighborLoop.simps [of i d j acc])
    next
      case le: True
      then have s: "edgeStep i j acc = Inr (acc @ edgeAt i j)" using 1(2) by (simp add: edgeStep_eq)
      from 1(1) [OF True s le] show ?thesis using True u s
        by (simp add: neighborLoop.simps [of i d j acc])
    qed
  qed
qed

lemma edgeLoop_eq:
  "int (length acc) \<le> maxArrayLength \<Longrightarrow>
   edgeLoop n d i acc =
     (if int (length (acc @ concat (map (\<lambda>i. concat (map (edgeAt i) [0..d - 1])) [i..n - 1])))
          \<le> maxArrayLength
      then Inr (acc @ concat (map (\<lambda>i. concat (map (edgeAt i) [0..d - 1])) [i..n - 1]))
      else Inl RangeError)"
proof (induction n d i acc rule: edgeLoop.induct)
  case (1 n d i acc)
  show ?case
  proof (cases "i < n")
    case False
    then show ?thesis using 1(2) by (simp add: edgeLoop.simps [of n d i acc])
  next
    case True
    then have u: "[i..n - 1] = i # [i + 1..n - 1]" by (simp add: upto_rec1)
    show ?thesis
    proof (cases "int (length (acc @ concat (map (edgeAt i) [0..d - 1]))) \<le> maxArrayLength")
      case False
      then have "neighborLoop i d 0 acc = Inl RangeError" using 1(2) by (simp add: neighborLoop_eq)
      then show ?thesis using True u False
        by (simp add: edgeLoop.simps [of n d i acc])
    next
      case le: True
      then have s: "neighborLoop i d 0 acc = Inr (acc @ concat (map (edgeAt i) [0..d - 1]))"
        using 1(2) by (simp add: neighborLoop_eq)
      from 1(1) [OF True s le] show ?thesis using True u s
        by (simp add: edgeLoop.simps [of n d i acc])
    qed
  qed
qed

section \<open>The 32-bit operators on the integers\<close>

lemma js_shl_int: "js_shl a n = signed_take_bit 31 (push_bit (nat (n mod 32)) a)"
  by (simp add: js_shl_def sint_sbintrunc' flip: of_int_push_bit)

lemma js_sar_int: "js_sar a n = drop_bit (nat (n mod 32)) (signed_take_bit 31 a)"
  by (simp add: js_sar_def sint_signed_drop_bit_eq sint_sbintrunc')

lemma js_and_int: "js_and a b = signed_take_bit 31 (a AND b)"
  by (simp add: js_and_def sint_sbintrunc' flip: of_int_and_eq)

lemma js_xor_int: "js_xor a b = signed_take_bit 31 (a XOR b)"
  by (simp add: js_xor_def sint_sbintrunc' flip: of_int_xor_eq)


lemma stb31_self: "0 \<le> k \<Longrightarrow> k < 2 ^ 31 \<Longrightarrow> signed_take_bit 31 (k::int) = k"
  by (rule signed_take_bit_int_eq_self) auto

lemma pow2_lt_31: "m < 31 \<Longrightarrow> (2::int) ^ m < 2 ^ 31"
  by (rule power_strict_increasing) auto

lemma js_shl_1_eq:
  "js_shl 1 j = (if j mod 32 = 31 then - (2 ^ 31) else 2 ^ nat (j mod 32))"
proof (cases "j mod 32 = 31")
  case True
  then show ?thesis by (simp add: js_shl_int)
next
  case False
  have "0 \<le> j mod 32" "j mod 32 < 32" by simp_all
  with False have "nat (j mod 32) < 31" by linarith
  then have "signed_take_bit 31 ((2::int) ^ nat (j mod 32)) = 2 ^ nat (j mod 32)"
    by (intro stb31_self pow2_lt_31) auto
  with False show ?thesis by (simp add: js_shl_int)
qed

lemma coordAt_bit:
  assumes "0 \<le> i" "i < 2 ^ 31"
  shows "coordAt i j = (if bit i (nat (j mod 32)) then 1 / 2 else - (1 / 2))"
proof -
  let ?m = "nat (j mod 32)"
  have a: "js_sar i j = drop_bit ?m i"
    using assms by (simp add: js_sar_int stb31_self)
  have b: "drop_bit ?m i AND 1 = of_bool (bit i ?m)"
    by (simp add: and_one_eq bit_iff_odd_drop_bit mod_2_eq_odd)
  have "js_and (js_sar i j) 1 = of_bool (bit i ?m)"
    unfolding js_and_int a b by (cases "bit i ?m") simp_all
  then show ?thesis by (simp add: coordAt_def)
qed


lemma flip_clear_bit:
  assumes "\<not> bit (i::int) m" shows "i XOR 2 ^ m = i + 2 ^ m"
proof -
  have "i XOR 2 ^ m = i OR 2 ^ m"
    by (rule bit_eqI) (use assms in \<open>auto simp: bit_xor_iff bit_or_iff bit_exp_iff\<close>)
  moreover have "i + 2 ^ m = i OR 2 ^ m"
    by (rule disjunctive_add) (use assms in \<open>auto simp: bit_exp_iff\<close>)
  ultimately show ?thesis by simp
qed

lemma flip_set_bit:
  assumes "bit (i::int) m" shows "i XOR 2 ^ m = i - 2 ^ m"
proof -
  have "\<not> bit (i XOR 2 ^ m) m"
    using assms by (simp add: bit_xor_iff bit_exp_iff)
  then have "(i XOR 2 ^ m) XOR 2 ^ m = (i XOR 2 ^ m) + 2 ^ m"
    by (rule flip_clear_bit)
  then show ?thesis by (simp add: xor.assoc)
qed

lemma flip_in_range:
  assumes "0 \<le> (i::int)" "i < 2 ^ n" "m < n"
  shows "0 \<le> i XOR 2 ^ m \<and> i XOR 2 ^ m < 2 ^ n"
proof -
  have "take_bit n i = i" using assms by (simp add: take_bit_int_eq_self)
  moreover have "take_bit n ((2::int) ^ m) = 2 ^ m"
    using assms by (simp add: take_bit_int_eq_self)
  ultimately have "take_bit n (i XOR 2 ^ m) = i XOR 2 ^ m"
    by (simp only: take_bit_xor)
  then show ?thesis by (simp only: take_bit_int_eq_self_iff)
qed

lemma flip_sign_bit:
  assumes "0 \<le> (i::int)" "i < 2 ^ n"
  shows "bit (i XOR - (2 ^ n)) n"
proof -
  have "take_bit n i = i" using assms by (simp add: take_bit_int_eq_self)
  then have "bit i n = bit (take_bit n i) n" by simp
  then have "\<not> bit i n" by (simp add: bit_take_bit_iff)
  then show ?thesis by (simp add: bit_xor_iff bit_minus_exp_iff)
qed

lemma edgeAt_bit:
  assumes "0 \<le> i" "i < 2 ^ 31"
  shows "edgeAt i j =
    (if j mod 32 \<noteq> 31 \<and> \<not> bit i (nat (j mod 32)) then [(i, i + 2 ^ nat (j mod 32))] else [])"
proof (cases "j mod 32 = 31")
  case True
  have "bit (i XOR - (2 ^ 31)) 31"
    using assms by (rule flip_sign_bit)
  then have "js_xor i (- (2 ^ 31)) < 0"
    unfolding js_xor_int by (simp only: signed_take_bit_negative_iff)
  with True assms show ?thesis
    by (simp add: edgeAt_def js_shl_1_eq)
next
  case False
  let ?m = "nat (j mod 32)"
  have "0 \<le> j mod 32" "j mod 32 < 32" by simp_all
  with False have m: "?m < 31" by linarith
  have r: "0 \<le> i XOR 2 ^ ?m \<and> i XOR 2 ^ ?m < 2 ^ 31"
    using assms m by (intro flip_in_range)
  then have x: "js_xor i (2 ^ ?m) = i XOR 2 ^ ?m"
    unfolding js_xor_int by (intro stb31_self) auto
  show ?thesis
  proof (cases "bit i ?m")
    case True
    have "i XOR 2 ^ ?m = i - 2 ^ ?m" using True by (rule flip_set_bit)
    then have "\<not> i < js_xor i (2 ^ ?m)" using x by simp
    with True False show ?thesis by (simp add: edgeAt_def js_shl_1_eq)
  next
    case b: False
    have "i XOR 2 ^ ?m = i + 2 ^ ?m" using b by (rule flip_clear_bit)
    then have "js_xor i (2 ^ ?m) = i + 2 ^ ?m" using x by simp
    with b False show ?thesis by (simp add: edgeAt_def js_shl_1_eq)
  qed
qed

section \<open>The generator as two list comprehensions\<close>

lemma numVertices_small:
  assumes "0 \<le> d" "d \<le> 30"
  shows "js_shl 1 d = 2 ^ nat d"
proof -
  have "d mod 32 = d" using assms by simp
  moreover have "d mod 32 \<noteq> 31" using assms by simp
  ultimately show ?thesis by (simp add: js_shl_1_eq)
qed

lemma numVertices_le: "js_shl 1 d \<le> 2 ^ 30"
proof (cases "d mod 32 = 31")
  case True
  then show ?thesis by (simp add: js_shl_1_eq)
next
  case False
  have "0 \<le> d mod 32" "d mod 32 < 32" by simp_all
  with False have "nat (d mod 32) \<le> 30" by linarith
  then have "(2::int) ^ nat (d mod 32) \<le> 2 ^ 30" by (intro power_increasing) auto
  with False show ?thesis by (simp add: js_shl_1_eq)
qed

lemma length_vertexList: "length (vertexList n d) = nat n"
  by (simp add: vertexList_def)

lemma generateHypercube_eq:
  assumes "1 \<le> d"
  shows "generateHypercube d =
    (if (0 < js_shl 1 d \<and> maxArrayLength < d)
        \<or> maxArrayLength < int (length (edgeList (js_shl 1 d) d))
     then Inl RangeError
     else Inr \<lparr>vertices = vertexList (js_shl 1 d) d, edges = edgeList (js_shl 1 d) d\<rparr>)"
proof -
  let ?n = "js_shl 1 d"
  have e: "int (length ([] :: 'a list)) \<le> maxArrayLength" by (simp add: maxArrayLength_def)
  have "int (length (vertexList ?n d)) \<le> maxArrayLength"
    using numVertices_le [of d] by (simp add: length_vertexList maxArrayLength_def)
  then have v: "vertexLoop ?n d 0 [] =
      (if 0 < ?n \<and> maxArrayLength < d then Inl RangeError else Inr (vertexList ?n d))"
    using vertexLoop_eq [OF e, of ?n d 0] by (simp add: vertexList_def)
  have g: "edgeLoop ?n d 0 [] =
      (if int (length (edgeList ?n d)) \<le> maxArrayLength then Inr (edgeList ?n d)
       else Inl RangeError)"
    using edgeLoop_eq [OF e, of ?n d 0] by (simp add: edgeList_def)
  show ?thesis using assms
    by (simp add: generateHypercube_def Let_def v g)
qed

lemma generate_Inr:
  assumes "1 \<le> d" "generateHypercube d = Inr h"
  shows "vertices h = vertexList (js_shl 1 d) d" and "edges h = edgeList (js_shl 1 d) d"
  using assms(2) unfolding generateHypercube_eq [OF assms(1)]
  by (auto split: if_splits)

lemma generate_low:
  assumes "d < 1" "generateHypercube d = Inr h"
  shows "length (vertices h) \<le> 1" and "edges h = []"
  using assms by (auto simp: generateHypercube_def split: if_splits)

section \<open>The vertex list\<close>

lemma vertexList_nth:
  assumes "0 \<le> i" "i < n"
  shows "vertexList n d ! nat i = map (coordAt i) [0..d - 1]"
proof -
  have "nat i < length [0..n - 1]" using assms by simp
  moreover have "[0..n - 1] ! nat i = i" using assms by (simp add: nth_upto)
  ultimately show ?thesis by (simp add: vertexList_def)
qed

lemma vertexList_coord:
  assumes "0 \<le> i" "i < js_shl 1 d" "0 \<le> j" "j < d"
  shows "vertexList (js_shl 1 d) d ! nat i ! nat j =
    (if bit i (nat (j mod 32)) then 1 / 2 else - (1 / 2))"
proof -
  have "i < 2 ^ 31" using assms(2) numVertices_le [of d] by simp
  with assms(1) have c: "coordAt i j = (if bit i (nat (j mod 32)) then 1 / 2 else - (1 / 2))"
    by (rule coordAt_bit)
  have "nat j < length [0..d - 1]" using assms by simp
  moreover have "[0..d - 1] ! nat j = j" using assms by (simp add: nth_upto)
  ultimately show ?thesis using assms c by (simp add: vertexList_nth)
qed

lemma length_vertex:
  assumes "1 \<le> d" "p \<in> set (vertexList n d)"
  shows "length p = nat d"
  using assms by (auto simp: vertexList_def)

section \<open>The edge list\<close>

lemma edgeList_mem:
  "(a, b) \<in> set (edgeList (js_shl 1 d) d) \<longleftrightarrow>
     0 \<le> a \<and> a < js_shl 1 d \<and>
     (\<exists>j. 0 \<le> j \<and> j < d \<and> j mod 32 \<noteq> 31 \<and> \<not> bit a (nat (j mod 32))
        \<and> b = a + 2 ^ nat (j mod 32))"
proof -
  have *: "edgeAt i j =
    (if j mod 32 \<noteq> 31 \<and> \<not> bit i (nat (j mod 32)) then [(i, i + 2 ^ nat (j mod 32))] else [])"
    if "0 \<le> i" "i < js_shl 1 d" for i j
  proof -
    have "i < 2 ^ 31" using that(2) numVertices_le [of d] by simp
    with that(1) show ?thesis by (rule edgeAt_bit)
  qed
  show ?thesis
    by (auto simp add: edgeList_def * split: if_splits)
qed

lemma edgeList_mem_small:
  assumes "1 \<le> d" "d \<le> 30"
  shows "(a, b) \<in> set (edgeList (2 ^ nat d) d) \<longleftrightarrow>
     0 \<le> a \<and> a < 2 ^ nat d \<and> (\<exists>k<nat d. \<not> bit a k \<and> b = a + 2 ^ k)"
proof -
  have n: "js_shl 1 d = 2 ^ nat d" using assms by (simp add: numVertices_small)
  have "(\<exists>j. 0 \<le> j \<and> j < d \<and> j mod 32 \<noteq> 31 \<and> \<not> bit a (nat (j mod 32)) \<and> b = a + 2 ^ nat (j mod 32))
    \<longleftrightarrow> (\<exists>k<nat d. \<not> bit a k \<and> b = a + 2 ^ k)" (is "?L \<longleftrightarrow> ?R")
  proof
    assume ?L
    then obtain j where j: "0 \<le> j" "j < d" "\<not> bit a (nat (j mod 32))" "b = a + 2 ^ nat (j mod 32)"
      by blast
    have "j mod 32 = j" using j assms by simp
    with j have "nat j < nat d \<and> \<not> bit a (nat j) \<and> b = a + 2 ^ nat j" by simp
    then show ?R by blast
  next
    assume ?R
    then obtain k where k: "k < nat d" "\<not> bit a k" "b = a + 2 ^ k" by blast
    have "int k mod 32 = int k" using k assms by simp
    moreover have "int k mod 32 \<noteq> 31" using k assms by simp
    ultimately have "0 \<le> int k \<and> int k < d \<and> int k mod 32 \<noteq> 31
      \<and> \<not> bit a (nat (int k mod 32)) \<and> b = a + 2 ^ nat (int k mod 32)"
      using k by simp
    then show ?L by blast
  qed
  then show ?thesis using edgeList_mem [of a b d] by (simp add: n)
qed

lemma differ_in_one_bit_xor: "differ_in_one_bit a b \<longleftrightarrow> (\<exists>k. b = a XOR 2 ^ k)"
proof
  assume "differ_in_one_bit a b"
  then obtain k where k: "\<And>m. (bit a m \<noteq> bit b m) \<longleftrightarrow> m = k"
    unfolding differ_in_one_bit_def by blast
  have "b = a XOR 2 ^ k"
    by (rule bit_eqI) (use k in \<open>auto simp: bit_xor_iff bit_exp_iff\<close>)
  then show "\<exists>k. b = a XOR 2 ^ k" ..
next
  assume "\<exists>k. b = a XOR 2 ^ k"
  then obtain k where "b = a XOR 2 ^ k" ..
  then have "\<forall>m. (bit a m \<noteq> bit b m) \<longleftrightarrow> m = k"
    by (auto simp: bit_xor_iff bit_exp_iff)
  then show "differ_in_one_bit a b" unfolding differ_in_one_bit_def ..
qed

lemma edgeList_one_bit:
  assumes "(a, b) \<in> set (edgeList (js_shl 1 d) d)"
  shows "a < b \<and> differ_in_one_bit a b"
proof -
  from assms obtain j where j: "\<not> bit a (nat (j mod 32))" "b = a + 2 ^ nat (j mod 32)"
    unfolding edgeList_mem by blast
  then have "b = a XOR 2 ^ nat (j mod 32)" by (simp add: flip_clear_bit)
  then have "differ_in_one_bit a b" unfolding differ_in_one_bit_xor ..
  moreover have "a < b" using j by simp
  ultimately show ?thesis by simp
qed

lemma differ_up:
  assumes "differ_in_one_bit a b" "a < b" "0 \<le> a" "b < 2 ^ n"
  shows "\<exists>k<n. \<not> bit a k \<and> b = a + 2 ^ k"
proof -
  from assms(1) obtain k where k: "b = a XOR 2 ^ k"
    unfolding differ_in_one_bit_xor by blast
  have nb: "\<not> bit a k"
  proof
    assume "bit a k"
    then have "b = a - 2 ^ k" using k by (simp add: flip_set_bit)
    with assms(2) show False by simp
  qed
  then have b: "b = a + 2 ^ k" using k by (simp add: flip_clear_bit)
  have "k < n"
  proof (rule ccontr)
    assume "\<not> k < n"
    then have "(2::int) ^ n \<le> 2 ^ k" by (intro power_increasing) auto
    with b assms show False by simp
  qed
  with nb b show ?thesis by blast
qed

lemma concat_map_if:
  "concat (map (\<lambda>x. if P x then [f x] else []) xs) = map f (filter P xs)"
  by (induction xs) simp_all

lemma distinct_concat_map:
  assumes "distinct xs" "\<And>x. x \<in> set xs \<Longrightarrow> distinct (f x)"
    "\<And>x y. x \<in> set xs \<Longrightarrow> y \<in> set xs \<Longrightarrow> x \<noteq> y \<Longrightarrow> set (f x) \<inter> set (f y) = {}"
  shows "distinct (concat (map f xs))"
  using assms
proof (induction xs)
  case Nil
  then show ?case by simp
next
  case (Cons x xs)
  have "distinct (concat (map f xs))" using Cons by simp
  moreover have "distinct (f x)" using Cons.prems by simp
  moreover have "set (f x) \<inter> set (f y) = {}" if "y \<in> set xs" for y
    using Cons.prems(1) Cons.prems(3) [of x y] that by auto
  ultimately show ?case by auto
qed

lemma edgeList_small:
  assumes "1 \<le> d" "d \<le> 30"
  shows "edgeList (2 ^ nat d) d =
    concat (map (\<lambda>i. map (\<lambda>j. (i, i + 2 ^ nat j)) (filter (\<lambda>j. \<not> bit i (nat j)) [0..d - 1]))
      [0..2 ^ nat d - 1])"
proof -
  have n: "js_shl 1 d = 2 ^ nat d" using assms by (simp add: numVertices_small)
  have "concat (map (edgeAt i) [0..d - 1]) =
      map (\<lambda>j. (i, i + 2 ^ nat j)) (filter (\<lambda>j. \<not> bit i (nat j)) [0..d - 1])"
    if i: "i \<in> set [0..2 ^ nat d - 1]" for i
  proof -
    have r: "0 \<le> i" "i < 2 ^ 31"
      using i numVertices_le [of d] by (simp_all add: n)
    have "edgeAt i j = (if \<not> bit i (nat j) then [(i, i + 2 ^ nat j)] else [])"
      if "j \<in> set [0..d - 1]" for j
    proof -
      have "j mod 32 = j" using that assms by simp
      moreover have "j mod 32 \<noteq> 31" using that assms by simp
      ultimately show ?thesis using edgeAt_bit [OF r, of j] by simp
    qed
    then have "map (edgeAt i) [0..d - 1] =
        map (\<lambda>j. if \<not> bit i (nat j) then [(i, i + 2 ^ nat j)] else []) [0..d - 1]"
      by (intro map_cong refl)
    then show ?thesis by (simp only: concat_map_if)
  qed
  then have "map (\<lambda>i. concat (map (edgeAt i) [0..d - 1])) [0..2 ^ nat d - 1] =
     map (\<lambda>i. map (\<lambda>j. (i, i + 2 ^ nat j)) (filter (\<lambda>j. \<not> bit i (nat j)) [0..d - 1])) [0..2 ^ nat d - 1]"
    by (intro map_cong refl)
  then show ?thesis by (simp only: edgeList_def)
qed

lemma distinct_edgeList:
  assumes "1 \<le> d" "d \<le> 30"
  shows "distinct (edgeList (2 ^ nat d) d)"
  unfolding edgeList_small [OF assms]
proof (rule distinct_concat_map)
  show "distinct [0..2 ^ nat d - 1]" by simp
next
  fix i :: int
  have "inj_on (\<lambda>j. (i, i + 2 ^ nat j)) {0..d - 1}"
  proof (rule inj_onI)
    fix x y :: int
    assume "x \<in> {0..d - 1}" "y \<in> {0..d - 1}" "(i, i + 2 ^ nat x) = (i, i + 2 ^ nat y)"
    then have "(2::int) ^ nat x = 2 ^ nat y" "0 \<le> x" "0 \<le> y" by simp_all
    then show "x = y" by simp
  qed
  then show "distinct (map (\<lambda>j. (i, i + 2 ^ nat j)) (filter (\<lambda>j. \<not> bit i (nat j)) [0..d - 1]))"
    by (auto simp: distinct_map intro: inj_on_subset)
next
  fix i i' :: int
  assume "i \<noteq> i'"
  then show "set (map (\<lambda>j. (i, i + 2 ^ nat j)) (filter (\<lambda>j. \<not> bit i (nat j)) [0..d - 1])) \<inter>
    set (map (\<lambda>j. (i', i' + 2 ^ nat j)) (filter (\<lambda>j. \<not> bit i' (nat j)) [0..d - 1])) = {}"
    by auto
qed

lemma count_list_distinct:
  "distinct xs \<Longrightarrow> count_list xs x = (if x \<in> set xs then 1 else 0)"
  by (induction xs) auto

lemma differ_0_1: "differ_in_one_bit 0 1"
  unfolding differ_in_one_bit_def by (rule exI [of _ 0]) (simp add: bit_1_iff)

section \<open>Counting the edges\<close>

lemma half_clear:
  assumes "k < n"
  shows "card {i::int. 0 \<le> i \<and> i < 2 ^ n \<and> \<not> bit i k} = 2 ^ (n - 1)"
proof -
  let ?R = "{0..<(2::int) ^ n}"
  let ?A0 = "{i::int. 0 \<le> i \<and> i < 2 ^ n \<and> \<not> bit i k}"
  let ?A1 = "{i::int. 0 \<le> i \<and> i < 2 ^ n \<and> bit i k}"
  let ?f = "\<lambda>i::int. i XOR 2 ^ k"
  have fin: "finite ?A0" "finite ?A1"
    by (rule finite_subset [of _ ?R]; auto)+
  have inv: "?f (?f i) = i" for i by (simp add: xor.assoc)
  have inj: "inj_on ?f ?A0"
    by (rule inj_on_inverseI [of _ ?f]) (rule inv)
  have img: "?f ` ?A0 = ?A1"
  proof (rule set_eqI, rule iffI)
    fix y assume "y \<in> ?f ` ?A0"
    then obtain i where i: "0 \<le> i" "i < 2 ^ n" "\<not> bit i k" "y = ?f i" by blast
    have "bit y k" using i by (simp add: bit_xor_iff bit_exp_iff)
    with flip_in_range [OF i(1) i(2) assms] i(4) show "y \<in> ?A1" by simp
  next
    fix y assume "y \<in> ?A1"
    then have y: "0 \<le> y" "y < 2 ^ n" "bit y k" by simp_all
    have "\<not> bit (?f y) k" using y by (simp add: bit_xor_iff bit_exp_iff)
    with flip_in_range [OF y(1) y(2) assms] have "?f y \<in> ?A0" by simp
    then have "?f (?f y) \<in> ?f ` ?A0" by (rule imageI)
    then show "y \<in> ?f ` ?A0" by (simp only: inv)
  qed
  have "card (?f ` ?A0) = card ?A0" using inj by (rule card_image)
  then have c: "card ?A1 = card ?A0" by (simp only: img)
  have un: "?A0 \<union> ?A1 = ?R" by auto
  have dj: "?A0 \<inter> ?A1 = {}" by auto
  have "card (?A0 \<union> ?A1) = card ?A0 + card ?A1"
    using fin dj by (rule card_Un_disjoint)
  then have "card ?R = card ?A0 + card ?A1" by (simp only: un)
  moreover have "card ?R = 2 ^ n" by (simp add: nat_power_eq)
  ultimately have "2 * card ?A0 = 2 ^ n" using c by simp
  moreover have "(2::nat) ^ n = 2 * 2 ^ (n - 1)"
    using assms by (cases n) simp_all
  ultimately show ?thesis by simp
qed

lemma length_filter_sum:
  "length (filter P xs) = sum_list (map (\<lambda>x. if P x then 1 else 0) xs)"
  by (induction xs) simp_all

lemma count_clear_bits:
  "(\<Sum>i\<in>{0..(2::int) ^ n - 1}. \<Sum>j\<in>{0..int n - 1}. if \<not> bit i (nat j) then 1 else 0) = n * 2 ^ (n - 1)"
proof -
  have "(\<Sum>i\<in>{0..(2::int) ^ n - 1}. \<Sum>j\<in>{0..int n - 1}. if \<not> bit i (nat j) then 1 else 0)
    = (\<Sum>j\<in>{0..int n - 1}. \<Sum>i\<in>{0..(2::int) ^ n - 1}. if \<not> bit i (nat j) then 1 else (0::nat))"
    by (rule sum.swap)
  also have "\<dots> = (\<Sum>j\<in>{0..int n - 1}. 2 ^ (n - 1))"
  proof (rule sum.cong [OF refl])
    fix j assume "j \<in> {0..int n - 1}"
    then have k: "nat j < n" by auto
    have "(\<Sum>i\<in>{0..(2::int) ^ n - 1}. if \<not> bit i (nat j) then 1 else (0::nat))
       = card ({0..(2::int) ^ n - 1} \<inter> {i. \<not> bit i (nat j)})"
      by (simp add: sum.If_cases)
    also have "{0..(2::int) ^ n - 1} \<inter> {i. \<not> bit i (nat j)} = {i. 0 \<le> i \<and> i < 2 ^ n \<and> \<not> bit i (nat j)}"
      by auto
    finally show "(\<Sum>i\<in>{0..(2::int) ^ n - 1}. if \<not> bit i (nat j) then 1 else (0::nat)) = 2 ^ (n - 1)"
      by (simp only: half_clear [OF k])
  qed
  also have "\<dots> = n * 2 ^ (n - 1)" by simp
  finally show ?thesis .
qed

lemma length_edgeList:
  assumes "1 \<le> d" "d \<le> 30"
  shows "length (edgeList (2 ^ nat d) d) = nat d * 2 ^ (nat d - 1)"
proof -
  have d: "d = int (nat d)" using assms by simp
  have "length (edgeList (2 ^ nat d) d) =
     sum_list (map (\<lambda>i::int. sum_list (map (\<lambda>j. if \<not> bit i (nat j) then 1 else 0) [0..d - 1])) [0..2 ^ nat d - 1])"
    unfolding edgeList_small [OF assms]
    by (simp add: length_concat comp_def length_filter_sum)
  also have "\<dots> = (\<Sum>i\<in>{0..(2::int) ^ nat d - 1}. \<Sum>j\<in>{0..d - 1}. if \<not> bit i (nat j) then 1 else 0)"
    by (simp add: sum_list_distinct_conv_sum_set)
  also have "\<dots> = (\<Sum>i\<in>{0..(2::int) ^ nat d - 1}. \<Sum>j\<in>{0..int (nat d) - 1}. if \<not> bit i (nat j) then 1 else 0)"
    using d by simp
  also have "\<dots> = nat d * 2 ^ (nat d - 1)" by (rule count_clear_bits)
  finally show ?thesis .
qed

section \<open>When the generator returns\<close>

text \<open>
  Up to dimension 28 no array outgrows the limit. At dimension 29 and 30 the edge list
  would need \<open>29 * 2 ^ 28\<close> and \<open>30 * 2 ^ 29\<close> elements, more than \<open>2 ^ 32 - 1\<close>, and
  \<^verbatim>\<open>edges.push\<close> throws.
\<close>

lemma generate_returns:
  assumes "1 \<le> d" "d \<le> 28"
  shows "generateHypercube d =
    Inr \<lparr>vertices = vertexList (2 ^ nat d) d, edges = edgeList (2 ^ nat d) d\<rparr>"
proof -
  have n: "js_shl 1 d = 2 ^ nat d" using assms by (simp add: numVertices_small)
  have "nat d \<le> 28" using assms by simp
  moreover have "(2::nat) ^ (nat d - 1) \<le> 2 ^ 27"
    using assms by (intro power_increasing) auto
  ultimately have "nat d * 2 ^ (nat d - 1) \<le> 28 * 2 ^ 27" by (rule mult_le_mono)
  then have "length (edgeList (2 ^ nat d) d) \<le> 28 * 2 ^ 27"
    using assms by (simp add: length_edgeList)
  then have "int (length (edgeList (2 ^ nat d) d)) \<le> maxArrayLength"
    by (simp add: maxArrayLength_def)
  moreover have "d \<le> maxArrayLength" using assms by (simp add: maxArrayLength_def)
  ultimately show ?thesis using assms(1)
    by (simp add: generateHypercube_eq n)
qed

lemma generate_throws:
  assumes "d = 29 \<or> d = 30"
  shows "generateHypercube d = Inl RangeError"
proof -
  have s: "1 \<le> d" "d \<le> 30" using assms by auto
  have n: "js_shl 1 d = 2 ^ nat d" using s by (simp add: numVertices_small)
  have "maxArrayLength < int (nat d * 2 ^ (nat d - 1))"
    using assms by (auto simp: maxArrayLength_def)
  then have "maxArrayLength < int (length (edgeList (2 ^ nat d) d))"
    by (simp only: length_edgeList [OF s])
  then show ?thesis using s(1) by (simp add: generateHypercube_eq n)
qed

lemma two_vertices_small:
  assumes "1 \<le> d" "d \<le> 32" "2 \<le> js_shl 1 d"
  shows "d \<le> 30"
proof (rule ccontr)
  assume "\<not> d \<le> 30"
  with assms have "d = 31 \<or> d = 32" by auto
  then have "js_shl 1 d < 2" by (auto simp: js_shl_1_eq)
  with assms(3) show False by simp
qed

section \<open>Concrete runs\<close>

lemma generate_2:
  "generateHypercube 2 =
     Inr \<lparr>vertices = [[- 0.5, - 0.5], [0.5, - 0.5], [- 0.5, 0.5], [0.5, 0.5]],
          edges = [(0, 1), (0, 2), (1, 3), (2, 3)]\<rparr>"
  by code_simp

lemma generate_3:
  "generateHypercube 3 = Inr \<lparr>vertices = vertexList 8 3, edges = edgeList 8 3\<rparr>"
  using generate_returns [of 3] by simp

lemma generate_31: "generateHypercube 31 = Inr \<lparr>vertices = [], edges = []\<rparr>"
  by code_simp

lemma generate_32:
  "generateHypercube 32 = Inr \<lparr>vertices = vertexList 1 32, edges = edgeList 1 32\<rparr>"
  by code_simp

lemma generate_33:
  "generateHypercube 33 = Inr \<lparr>vertices = vertexList 2 33, edges = edgeList 2 33\<rparr>"
  by code_simp

section \<open>Vertex count\<close>

text \<open>
  C1, as amended: for every dimension \<open>d\<close> with \<open>0 \<le> d \<le> 28\<close> the generator returns, and
  returns exactly \<open>2 ^ d\<close> vertices; at \<open>d = 0\<close> that is the one vertex \<^verbatim>\<open>[0]\<close>.
\<close>

theorem vertex_count:
  assumes "0 \<le> d" "d \<le> 28"
  shows "\<exists>h. generateHypercube d = Inr h \<and> length (vertices h) = 2 ^ nat d"
proof (cases "d = 0")
  case True
  then show ?thesis by (simp add: generateHypercube_def)
next
  case False
  with assms have "1 \<le> d" by simp
  then show ?thesis using assms(2)
    by (simp add: generate_returns length_vertexList)
qed

theorem vertex_count_witness:
  "(0::int) \<le> 3 \<and> (3::int) \<le> 28
   \<and> (\<exists>h. generateHypercube 3 = Inr h \<and> length (vertices h) = 2 ^ nat 3)"
  using vertex_count [of 3] by simp

text \<open>
  C1 as the specification states it, for every \<open>d \<ge> 0\<close>, fails at \<open>d = 31\<close>:
  \<^verbatim>\<open>1 << 31\<close> is \<open>- 2 ^ 31\<close>, the loop \<^verbatim>\<open>i < numVertices\<close> never runs and no vertex
  is returned. It fails at \<open>d = 29\<close> too, where \<^verbatim>\<open>edges.push\<close> throws and nothing is
  returned.
\<close>

theorem vertex_count_31:
  "(0::int) \<le> 31 \<and> generateHypercube 31 = Inr \<lparr>vertices = [], edges = []\<rparr>
   \<and> length (vertices \<lparr>vertices = [], edges = []\<rparr>) \<noteq> 2 ^ nat 31
   \<and> (0::int) \<le> 29 \<and> generateHypercube 29 = Inl RangeError"
  using generate_throws [of 29] by (simp add: generate_31)

section \<open>Edge count\<close>

text \<open>
  C2, as amended: for every dimension \<open>d\<close> with \<open>1 \<le> d \<le> 28\<close> the generator returns, and
  returns exactly \<open>d * 2 ^ (d - 1)\<close> edges; at \<open>d = 0\<close> it returns no edge.
\<close>

theorem edge_count:
  assumes "0 \<le> d" "d \<le> 28"
  shows "\<exists>h. generateHypercube d = Inr h
    \<and> length (edges h) = (if d = 0 then 0 else nat d * 2 ^ (nat d - 1))"
proof (cases "d = 0")
  case True
  then show ?thesis by (simp add: generateHypercube_def)
next
  case False
  with assms have "1 \<le> d" "d \<le> 30" by simp_all
  then show ?thesis using assms(2) False
    by (simp add: generate_returns length_edgeList)
qed

theorem edge_count_witness:
  "(0::int) \<le> 3 \<and> (3::int) \<le> 28
   \<and> (\<exists>h. generateHypercube 3 = Inr h \<and> length (edges h) = 12)"
  using edge_count [of 3] by simp

text \<open>
  C2 as the specification states it, for every \<open>d \<ge> 1\<close>, fails at \<open>d = 31\<close>, where
  \<^verbatim>\<open>1 << 31\<close> is negative and no edge is produced, and at \<open>d = 30\<close>, where the
  \<open>30 * 2 ^ 29\<close> edges do not fit an array and \<^verbatim>\<open>edges.push\<close> throws.
\<close>

theorem edge_count_31:
  "(1::int) \<le> 31 \<and> generateHypercube 31 = Inr \<lparr>vertices = [], edges = []\<rparr>
   \<and> length (edges \<lparr>vertices = [], edges = []\<rparr>) \<noteq> nat 31 * 2 ^ (nat 31 - 1)
   \<and> (1::int) \<le> 30 \<and> generateHypercube 30 = Inl RangeError"
  using generate_throws [of 30] by (simp add: generate_31)

section \<open>Vertex coordinates\<close>

text \<open>
  C3, as amended: for every dimension \<open>d\<close> with \<open>1 \<le> d \<le> 28\<close> and every index \<open>i\<close> with
  \<open>0 \<le> i < 2 ^ d\<close>, the generator returns, the vertex list has an \<open>i\<close>-th entry, that entry
  has exactly \<open>d\<close> coordinates, and its \<open>j\<close>-th coordinate (\<open>0 \<le> j < d\<close>) is \<open>0.5\<close> when bit
  \<open>j\<close> of \<open>i\<close> is set and \<open>- 0.5\<close> otherwise: the list is in binary index order.
\<close>

theorem vertex_coordinates:
  assumes "1 \<le> d" "d \<le> 28" "0 \<le> i" "i < 2 ^ nat d" "0 \<le> j" "j < d"
  shows "\<exists>h. generateHypercube d = Inr h
    \<and> nat i < length (vertices h)
    \<and> length (vertices h ! nat i) = nat d
    \<and> vertices h ! nat i ! nat j = (if bit i (nat j) then 0.5 else - 0.5)"
proof -
  have n: "js_shl 1 d = 2 ^ nat d" using assms by (simp add: numVertices_small)
  let ?vs = "vertexList (2 ^ nat d) d"
  have "nat i < length ?vs" using assms by (simp add: length_vertexList)
  moreover have "length (?vs ! nat i) = nat d"
    using assms by (simp add: vertexList_nth)
  moreover have "?vs ! nat i ! nat j = (if bit i (nat j) then 0.5 else - 0.5)"
  proof -
    have "j mod 32 = j" using assms by simp
    then show ?thesis using vertexList_coord [of i d j] assms n by simp
  qed
  ultimately show ?thesis using assms(1,2) by (simp add: generate_returns)
qed

theorem vertex_coordinates_witness:
  "(1::int) \<le> 3 \<and> (3::int) \<le> 28 \<and> (0::int) \<le> 5 \<and> (5::int) < 2 ^ nat 3
   \<and> (0::int) \<le> 1 \<and> (1::int) < 3
   \<and> (\<exists>h. generateHypercube 3 = Inr h
        \<and> nat 5 < length (vertices h)
        \<and> length (vertices h ! nat 5) = nat 3
        \<and> vertices h ! nat 5 ! nat 1 = - 0.5)"
  using vertex_coordinates [of 3 5 1] by simp

text \<open>
  C3 as the specification states it, for every \<open>d \<ge> 1\<close>, fails at \<open>d = 33\<close>: the shift
  count of \<^verbatim>\<open>i >> j\<close> wraps at 32, so coordinate 32 of vertex 1 repeats bit 0 and is
  \<open>0.5\<close>, although bit 32 of 1 is clear.
\<close>

theorem vertex_coordinates_33:
  "(1::int) \<le> 33 \<and> (0::int) \<le> 1 \<and> (1::int) < 2 ^ nat 33 \<and> (0::int) \<le> 32 \<and> (32::int) < 33
   \<and> generateHypercube 33 = Inr \<lparr>vertices = vertexList 2 33, edges = edgeList 2 33\<rparr>
   \<and> \<not> bit (1::int) (nat 32)
   \<and> vertexList 2 33 ! nat 1 ! nat 32 = 0.5"
  using vertexList_coord [of 1 33 32] by (simp add: js_shl_1_eq generate_33)

section \<open>Edges and vertex positions\<close>

text \<open>
  C9, as amended: for every dimension no edge of the returned list joins an index to
  itself, and for every dimension \<open>d \<le> 31\<close> both indices of every returned edge are
  positions of the returned vertex list.
\<close>

theorem edges_valid:
  assumes "generateHypercube d = Inr h" "(a, b) \<in> set (edges h)"
  shows "a \<noteq> b \<and>
    (d \<le> 31 \<longrightarrow> 0 \<le> a \<and> a < int (length (vertices h))
      \<and> 0 \<le> b \<and> b < int (length (vertices h)))"
proof -
  have d: "1 \<le> d"
  proof (rule ccontr)
    assume "\<not> 1 \<le> d"
    then have "edges h = []" using assms(1) by (intro generate_low) auto
    with assms(2) show False by simp
  qed
  note g = generate_Inr [OF d assms(1)]
  from assms(2) obtain j where a: "0 \<le> a" "a < js_shl 1 d"
    and b: "b = a + 2 ^ nat (j mod 32)"
    unfolding g edgeList_mem by blast
  have "a \<noteq> b" using b by simp
  moreover have "0 \<le> a \<and> a < int (length (vertices h))
      \<and> 0 \<le> b \<and> b < int (length (vertices h))" if "d \<le> 31"
  proof (cases "d = 31")
    case True
    then have "js_shl 1 d < 0" by (simp add: js_shl_1_eq)
    with a show ?thesis by simp
  next
    case False
    with that d have s: "1 \<le> d" "d \<le> 30" by simp_all
    have n: "js_shl 1 d = 2 ^ nat d" using s by (simp add: numVertices_small)
    from assms(2) obtain k where k: "k < nat d" "\<not> bit a k" "b = a + 2 ^ k"
      and a2: "a < 2 ^ nat d"
      unfolding g n edgeList_mem_small [OF s] by blast
    have "b = a XOR 2 ^ k" using k by (simp add: flip_clear_bit)
    then have "0 \<le> b \<and> b < 2 ^ nat d" using flip_in_range [OF a(1) a2 k(1)] by simp
    moreover have "length (vertices h) = 2 ^ nat d"
      by (simp add: g n length_vertexList nat_power_eq)
    ultimately show ?thesis using a a2 by simp
  qed
  ultimately show ?thesis by blast
qed

theorem edges_valid_witness:
  "generateHypercube 2 =
     Inr \<lparr>vertices = [[- 0.5, - 0.5], [0.5, - 0.5], [- 0.5, 0.5], [0.5, 0.5]],
          edges = [(0, 1), (0, 2), (1, 3), (2, 3)]\<rparr>
   \<and> (0, 1) \<in> set [(0, 1), (0, 2), (1, 3), (2, 3 :: int)] \<and> (2::int) \<le> 31 \<and> (0::int) \<noteq> 1
   \<and> (1::int) < int (length [[- 0.5, - 0.5], [0.5, - 0.5], [- 0.5, 0.5], [0.5, 0.5 :: real]])"
  using edges_valid [OF generate_2, of 0 1] generate_2 by simp

text \<open>
  C9 as the specification states it, for every dimension, fails at \<open>d = 32\<close>:
  \<^verbatim>\<open>1 << 32\<close> is 1, so one vertex is returned, while the inner loop still runs over 32
  bit positions and emits the edge \<open>(0, 1)\<close>.
\<close>

theorem edges_invalid_32:
  "generateHypercube 32 = Inr \<lparr>vertices = vertexList 1 32, edges = edgeList 1 32\<rparr>
   \<and> (0, 1) \<in> set (edgeList 1 32) \<and> length (vertexList 1 32) = 1
   \<and> \<not> (1::int) < int (length (vertexList 1 32))"
proof -
  have "(0, 1) \<in> set (edgeList (js_shl 1 32) 32)"
    unfolding edgeList_mem by (simp add: js_shl_1_eq) (rule exI [of _ 0], simp)
  then have "(0, 1) \<in> set (edgeList 1 32)" by (simp add: js_shl_1_eq)
  then show ?thesis by (simp add: generate_32 length_vertexList)
qed

section \<open>Edges join indices that differ in one bit\<close>

text \<open>
  C4, as amended: the generator returns for every dimension \<open>d\<close> with \<open>1 \<le> d \<le> 28\<close>; for
  every dimension at which it returns, every returned edge \<open>(a, b)\<close> has \<open>a < b\<close> and its
  indices differ in exactly one bit; and for every dimension \<open>d \<le> 32\<close> at which it
  returns, every pair \<open>a < b\<close> of positions of the returned vertex list that differ in
  exactly one bit occurs exactly once in the edge list as \<open>(a, b)\<close> and never as \<open>(b, a)\<close>.
\<close>

theorem edges_one_bit:
  "(1 \<le> d \<and> d \<le> 28 \<longrightarrow> (\<exists>h'. generateHypercube d = Inr h'))
   \<and> (generateHypercube d = Inr h \<longrightarrow>
        ((a, b) \<in> set (edges h) \<longrightarrow> a < b \<and> differ_in_one_bit a b)
        \<and> (d \<le> 32 \<and> 0 \<le> a \<and> a < b \<and> b < int (length (vertices h)) \<and> differ_in_one_bit a b \<longrightarrow>
             count_list (edges h) (a, b) = 1 \<and> count_list (edges h) (b, a) = 0))"
proof -
  have "\<exists>h'. generateHypercube d = Inr h'" if "1 \<le> d" "d \<le> 28"
    using that by (simp add: generate_returns)
  moreover have "a < b \<and> differ_in_one_bit a b"
    if r: "generateHypercube d = Inr h" and m: "(a, b) \<in> set (edges h)"
  proof -
    have d: "1 \<le> d"
    proof (rule ccontr)
      assume "\<not> 1 \<le> d"
      then have "edges h = []" using r by (intro generate_low) auto
      with m show False by simp
    qed
    from m have "(a, b) \<in> set (edgeList (js_shl 1 d) d)"
      by (simp only: generate_Inr [OF d r])
    then show ?thesis by (rule edgeList_one_bit)
  qed
  moreover have "count_list (edges h) (a, b) = 1 \<and> count_list (edges h) (b, a) = 0"
    if r: "generateHypercube d = Inr h" and le: "d \<le> 32"
      and h: "0 \<le> a" "a < b" "b < int (length (vertices h))" "differ_in_one_bit a b"
  proof -
    have d: "1 \<le> d"
    proof (rule ccontr)
      assume "\<not> 1 \<le> d"
      then have "length (vertices h) \<le> 1" using r by (intro generate_low) auto
      with h show False by simp
    qed
    note g = generate_Inr [OF d r]
    have "b < int (nat (js_shl 1 d))" using h(3) by (simp add: g length_vertexList)
    with h have "2 \<le> js_shl 1 d" by (simp split: if_splits)
    with d le have s: "1 \<le> d" "d \<le> 30" by (simp_all add: two_vertices_small)
    have n: "js_shl 1 d = 2 ^ nat d" using s by (simp add: numVertices_small)
    have e: "edges h = edgeList (2 ^ nat d) d" by (simp add: g n)
    have b2: "b < 2 ^ nat d" using h(3) by (simp add: g n length_vertexList nat_power_eq)
    from differ_up [OF h(4) h(2) h(1) b2]
    have "(a, b) \<in> set (edges h)"
      unfolding e edgeList_mem_small [OF s] using h b2 by simp
    then have "count_list (edges h) (a, b) = 1"
      by (simp add: e count_list_distinct distinct_edgeList [OF s])
    moreover have "(b, a) \<notin> set (edges h)"
      unfolding e edgeList_mem_small [OF s] using h by auto
    ultimately show ?thesis by simp
  qed
  ultimately show ?thesis by blast
qed

theorem edges_one_bit_witness:
  "(1::int) \<le> 2 \<and> (2::int) \<le> 28
   \<and> generateHypercube 2 =
       Inr \<lparr>vertices = [[- 0.5, - 0.5], [0.5, - 0.5], [- 0.5, 0.5], [0.5, 0.5]],
            edges = [(0, 1), (0, 2), (1, 3), (2, 3)]\<rparr>
   \<and> (0, 1) \<in> set [(0, 1), (0, 2), (1, 3), (2, 3 :: int)]
   \<and> (2::int) \<le> 32 \<and> (0::int) \<le> 0 \<and> (0::int) < 1
   \<and> (1::int) < int (length [[- 0.5, - 0.5], [0.5, - 0.5], [- 0.5, 0.5], [0.5, 0.5 :: real]])
   \<and> differ_in_one_bit 0 1
   \<and> count_list [(0, 1), (0, 2), (1, 3), (2, 3 :: int)] (0, 1) = 1
   \<and> count_list [(0, 1), (0, 2), (1, 3), (2, 3 :: int)] (1, 0) = 0"
  using edges_one_bit [of 2
      "\<lparr>vertices = [[- 0.5, - 0.5], [0.5, - 0.5], [- 0.5, 0.5], [0.5, 0.5]],
        edges = [(0, 1), (0, 2), (1, 3), (2, 3)]\<rparr>" 0 1]
    generate_2 differ_0_1
  by simp

text \<open>
  C4 as the specification states it, for every \<open>d \<ge> 1\<close>, fails at \<open>d = 33\<close>: \<^verbatim>\<open>1 << 33\<close> is 2,
  so the vertices 0 and 1 are returned, and for vertex 0 the bit positions 0 and 32 both
  give \<^verbatim>\<open>1 << j = 1\<close>, so the edge \<open>(0, 1)\<close> is pushed twice.
\<close>

theorem edges_twice_33:
  "(1::int) \<le> 33
   \<and> generateHypercube 33 = Inr \<lparr>vertices = vertexList 2 33, edges = edgeList 2 33\<rparr>
   \<and> (0::int) \<le> 0 \<and> (0::int) < 1 \<and> (1::int) < int (length (vertexList 2 33))
   \<and> differ_in_one_bit 0 1
   \<and> count_list (edgeList 2 33) (0, 1) = 2"
proof -
  have "count_list (edgeList 2 33) (0, 1) = 2" by code_simp
  with differ_0_1 show ?thesis by (simp add: generate_33 length_vertexList)
qed

section \<open>Negative dimension\<close>

text \<open>
  C8: for every dimension \<open>d < 0\<close> the generator returns an empty vertex list and an
  empty edge list; the result is \<open>Inr\<close>, no exception is raised.
\<close>

theorem negative_dimension:
  "d < 0 \<Longrightarrow> generateHypercube d = Inr \<lparr>vertices = [], edges = []\<rparr>"
  by (simp add: generateHypercube_def)

theorem negative_dimension_witness:
  "(- 1 :: int) < 0 \<and> generateHypercube (- 1) = Inr \<lparr>vertices = [], edges = []\<rparr>"
  using negative_dimension [of "- 1"] by simp

section \<open>The projection from dimension 3 on\<close>

lemma projectLoop_sum:
  assumes "nat d \<le> length p"
  shows "k \<le> nat d \<Longrightarrow>
    projectLoop p d (int k) (Num a, Num b) =
      (Num (a + (\<Sum>i = k..<nat d. p ! i * cos (pi * real i / (real_of_int d - 1.5)))),
       Num (b + (\<Sum>i = k..<nat d. p ! i * sin (pi * real i / (real_of_int d - 1.5)))))"
proof (induction "nat d - k" arbitrary: k a b)
  case 0
  then have nl: "\<not> int k < d" by linarith
  have "projectLoop p d (int k) (Num a, Num b) = (Num a, Num b)"
    using nl by (subst projectLoop.simps) simp
  moreover have "{k..<nat d} = {}" using 0 by simp
  ultimately show ?case by simp
next
  case (Suc n)
  then have k: "k < nat d" by simp
  then have lt: "int k < d" by simp
  have c: "coordOf p (int k) = Num (p ! k)" using k assms by (simp add: coordOf_def)
  have step: "projectStep p d (int k) (Num a, Num b) =
      (Num (a + p ! k * cos (pi * real k / (real_of_int d - 1.5))),
       Num (b + p ! k * sin (pi * real k / (real_of_int d - 1.5))))"
    by (simp add: projectStep_def Let_def c)
  have "n = nat d - Suc k" using Suc.hyps(2) by simp
  moreover have "Suc k \<le> nat d" using k by simp
  ultimately have ih: "projectLoop p d (int (Suc k)) (Num a', Num b') =
      (Num (a' + (\<Sum>i = Suc k..<nat d. p ! i * cos (pi * real i / (real_of_int d - 1.5)))),
       Num (b' + (\<Sum>i = Suc k..<nat d. p ! i * sin (pi * real i / (real_of_int d - 1.5)))))"
    for a' b' by (rule Suc.hyps(1))
  have s: "int k + 1 = int (Suc k)" by simp
  show ?case
    unfolding projectLoop.simps [of p d "int k"] step s ih
    using lt k by (simp add: sum.atLeast_Suc_lessThan add.assoc)
qed

lemma projectPoint_formula:
  assumes "nat d \<le> length p"
  shows "projectPoint d s p =
    (Num (s * 2.2 / (real_of_int d - 1) * (\<Sum>k = 0..<nat d. p ! k * cos (pi * real k / (real_of_int d - 1.5)))),
     Num (s * 2.2 / (real_of_int d - 1) * (\<Sum>k = 0..<nat d. p ! k * sin (pi * real k / (real_of_int d - 1.5)))))"
  using projectLoop_sum [OF assms, of 0 0 0]
  by (simp add: projectPoint_def Let_def mult.commute)

text \<open>
  C5: for every dimension \<open>d \<ge> 3\<close>, every size \<open>s\<close> and the vertex list that
  \<open>generateHypercube d\<close> returns, the projection returns one point per vertex, in the order
  of the vertex list, and the point of the vertex \<open>p\<close> is
  \<open>(S * (\<Sum>k<d. p\<^sub>k * cos (pi * k / (d - 1.5))), S * (\<Sum>k<d. p\<^sub>k * sin (pi * k / (d - 1.5))))\<close>
  with \<open>S = s * 2.2 / (d - 1)\<close>. (Over the reals; every vertex has \<open>d\<close> coordinates, so no
  coordinate read is out of range and no \<open>NaN\<close> arises.)
\<close>

theorem projection_formula:
  assumes "3 \<le> d" "generateHypercube d = Inr h"
  shows "projectedVertices (vertices h) d s =
    map (\<lambda>p. (Num (s * 2.2 / (real_of_int d - 1) *
                  (\<Sum>k = 0..<nat d. p ! k * cos (pi * real k / (real_of_int d - 1.5)))),
              Num (s * 2.2 / (real_of_int d - 1) *
                  (\<Sum>k = 0..<nat d. p ! k * sin (pi * real k / (real_of_int d - 1.5))))))
      (vertices h)"
proof -
  have d: "1 \<le> d" using assms(1) by simp
  have "projectedVertices (vertices h) d s = map (projectPoint d s) (vertices h)"
    using assms by (simp add: projectedVertices_def)
  also have "\<dots> = map (\<lambda>p. (Num (s * 2.2 / (real_of_int d - 1) *
                  (\<Sum>k = 0..<nat d. p ! k * cos (pi * real k / (real_of_int d - 1.5)))),
              Num (s * 2.2 / (real_of_int d - 1) *
                  (\<Sum>k = 0..<nat d. p ! k * sin (pi * real k / (real_of_int d - 1.5))))))
      (vertices h)"
  proof (rule map_cong [OF refl])
    fix p assume "p \<in> set (vertices h)"
    then have "p \<in> set (vertexList (js_shl 1 d) d)"
      by (simp only: generate_Inr [OF d assms(2)])
    with d have "length p = nat d" by (rule length_vertex)
    then have "nat d \<le> length p" by simp
    then show "projectPoint d s p = (Num (s * 2.2 / (real_of_int d - 1) *
                  (\<Sum>k = 0..<nat d. p ! k * cos (pi * real k / (real_of_int d - 1.5)))),
              Num (s * 2.2 / (real_of_int d - 1) *
                  (\<Sum>k = 0..<nat d. p ! k * sin (pi * real k / (real_of_int d - 1.5)))))"
      by (rule projectPoint_formula)
  qed
  finally show ?thesis .
qed

theorem projection_formula_witness:
  "(3::int) \<le> 3
   \<and> generateHypercube 3 = Inr \<lparr>vertices = vertexList 8 3, edges = edgeList 8 3\<rparr>
   \<and> projectedVertices (vertices \<lparr>vertices = vertexList 8 3, edges = edgeList 8 3\<rparr>) 3 100 =
    map (\<lambda>p. (Num (100 * 2.2 / (real_of_int 3 - 1) *
                  (\<Sum>k = 0..<nat 3. p ! k * cos (pi * real k / (real_of_int 3 - 1.5)))),
              Num (100 * 2.2 / (real_of_int 3 - 1) *
                  (\<Sum>k = 0..<nat 3. p ! k * sin (pi * real k / (real_of_int 3 - 1.5))))))
      (vertices \<lparr>vertices = vertexList 8 3, edges = edgeList 8 3\<rparr>)"
proof -
  have h: "(3::int) \<le> 3" by simp
  show ?thesis using h generate_3 projection_formula [OF h generate_3, of 100] by blast
qed

section \<open>The projection at dimensions 0, 1 and 2\<close>

text \<open>
  C6: at dimension 0 the projection is the single point \<open>(0, 0)\<close>; at dimension 1 with size
  100 it is \<open>[(- 50, 0), (50, 0)]\<close>; at dimension 2 with size 100 it is
  \<open>[(- 50, - 50), (50, - 50), (- 50, 50), (50, 50)]\<close>, in that order. The vertex list plays
  no part.
\<close>

theorem low_dimension_points:
  "projectedVertices vs 0 sz = [(Num 0, Num 0)]
   \<and> projectedVertices vs 1 100 = [(Num (- 50), Num 0), (Num 50, Num 0)]
   \<and> projectedVertices vs 2 100 =
       [(Num (- 50), Num (- 50)), (Num 50, Num (- 50)), (Num (- 50), Num 50), (Num 50, Num 50)]"
  by (simp add: projectedVertices_def)

text \<open>
  C10: at dimension 0, 1 or 2, two calls with the same dimension and the same size return
  the same points, whatever the two vertex lists are.
\<close>

theorem low_dimension_independent:
  "dimension \<in> {0, 1, 2} \<Longrightarrow>
     projectedVertices vs dimension sz = projectedVertices vs' dimension sz"
  by (auto simp: projectedVertices_def)

theorem low_dimension_independent_witness:
  "(1::int) \<in> {0, 1, 2} \<and> projectedVertices [] 1 100 = projectedVertices [[0.5], [- 0.5]] 1 100"
  using low_dimension_independent [of 1 "[]" 100 "[[0.5], [- 0.5]]"] by simp

section \<open>Number of projected points\<close>

text \<open>
  C7, as amended: for every vertex list, every size and every dimension other than 0, 1
  and 2, the projection returns exactly as many points as there are vertices (so an empty
  vertex list gives an empty point list); and for every dimension, the projection of the
  vertex list that \<open>generateHypercube\<close> returns for that dimension has exactly as many
  points as that list has vertices.
\<close>

theorem projection_length:
  "(dimension \<notin> {0, 1, 2} \<longrightarrow> length (projectedVertices vs dimension sz) = length vs)
   \<and> (generateHypercube dimension = Inr h \<longrightarrow>
        length (projectedVertices (vertices h) dimension sz) = length (vertices h))"
proof -
  have "length (vertices h) = 1" if "generateHypercube 0 = Inr h"
    using that by (auto simp: generateHypercube_def)
  moreover have "length (vertices h) = 2" if "generateHypercube 1 = Inr h"
    using generate_Inr(1) [OF _ that] by (simp add: length_vertexList js_shl_1_eq)
  moreover have "length (vertices h) = 4" if "generateHypercube 2 = Inr h"
    using generate_Inr(1) [OF _ that] by (simp add: length_vertexList js_shl_1_eq)
  ultimately show ?thesis by (auto simp: projectedVertices_def)
qed

theorem projection_length_witness:
  "(3::int) \<notin> {0, 1, 2}
   \<and> length (projectedVertices [[1, 2, 3], [4, 5]] 3 100) = length [[1, 2, 3], [4, 5 :: real]]
   \<and> generateHypercube 3 = Inr \<lparr>vertices = vertexList 8 3, edges = edgeList 8 3\<rparr>
   \<and> length (projectedVertices (vertexList 8 3) 3 100) = length (vertexList 8 3)"
  using projection_length [of 3 "[[1, 2, 3], [4, 5]]" 100]
    projection_length [of 3 _ 100 "\<lparr>vertices = vertexList 8 3, edges = edgeList 8 3\<rparr>"]
    generate_3
  by simp

text \<open>
  C7 as the specification states it, for every vertex list and every dimension, fails for
  the empty vertex list at dimension 0: the branch \<^verbatim>\<open>dimension === 0\<close> returns the point
  \<open>(0, 0)\<close> without looking at the vertices.
\<close>

theorem projection_length_empty_0:
  "projectedVertices [] 0 100 = [(Num 0, Num 0)]
   \<and> length (projectedVertices [] 0 100) \<noteq> length ([] :: PointND list)"
  by (simp add: projectedVertices_def)

end
